theory Spec2Isabelle
  imports Main
begin

section \<open>Strings and characters\<close>

text \<open>
  A JavaScript string is a sequence of code units. The model uses \<open>string\<close>; a
  \<open>char\<close> stands for one code unit below 256. All pattern literals of the source are
  ASCII, and no non-ASCII code unit is case-equivalent to an ASCII one under the
  \<open>i\<close> flag without the \<open>u\<close> flag, so the restriction does not change which
  ASCII messages match.
\<close>

definition isWordChar :: "char \<Rightarrow> bool" where
  \<comment> \<open>the class \<open>\w\<close>: \<open>[A-Za-z0-9_]\<close>\<close>
  "isWordChar c =
     (let n = (of_char c :: nat)
      in (48 \<le> n \<and> n \<le> 57) \<or> (65 \<le> n \<and> n \<le> 90) \<or> n = 95 \<or> (97 \<le> n \<and> n \<le> 122))"

definition isSpaceChar :: "char \<Rightarrow> bool" where
  \<comment> \<open>the class \<open>\s\<close>, also the characters removed by \<open>trim\<close>: TAB, LF, VT, FF, CR,
      space and the no-break space\<close>
  "isSpaceChar c =
     (let n = (of_char c :: nat) in (9 \<le> n \<and> n \<le> 13) \<or> n = 32 \<or> n = 160)"

definition isAlphaChar :: "char \<Rightarrow> bool" where
  \<comment> \<open>an ASCII letter\<close>
  "isAlphaChar c =
     (let n = (of_char c :: nat) in (65 \<le> n \<and> n \<le> 90) \<or> (97 \<le> n \<and> n \<le> 122))"

definition canonicalize :: "char \<Rightarrow> char" where
  \<comment> \<open>case folding of the \<open>i\<close> flag on ASCII letters: to upper case\<close>
  "canonicalize c =
     (let n = (of_char c :: nat) in if 97 \<le> n \<and> n \<le> 122 then char_of (n - 32) else c)"

definition toLowerCase :: "string \<Rightarrow> string" where
  \<comment> \<open>on ASCII letters; the validator uses the result only for its length\<close>
  "toLowerCase s =
     map (\<lambda>c. let n = (of_char c :: nat) in if 65 \<le> n \<and> n \<le> 90 then char_of (n + 32) else c) s"

definition trim :: "string \<Rightarrow> string" where
  "trim s = rev (dropWhile isSpaceChar (rev (dropWhile isSpaceChar s)))"

fun startsWith :: "string \<Rightarrow> string \<Rightarrow> bool" where
  "startsWith s [] = True"
| "startsWith [] (p # ps) = False"
| "startsWith (c # cs) (p # ps) = (c = p \<and> startsWith cs ps)"

fun includes_str :: "string \<Rightarrow> string \<Rightarrow> bool" where
  "includes_str [] p = (p = [])"
| "includes_str (c # cs) p = (startsWith (c # cs) p \<or> includes_str cs p)"

section \<open>Regular expressions with backtracking\<close>

text \<open>
  The fragment of the regular expression language that the patterns of the extractor use.
  Every quantifier of the source is applied to one character or one character class,
  and every quantifier is greedy. Under the \<open>i\<close> flag a character is compared
  after case folding.
\<close>

datatype cmember = Lit char | Word | Space

datatype atom =
    Chr char                  \<comment> \<open>a literal character\<close>
  | Cls "cmember list"        \<comment> \<open>\<open>[...]\<close>, and \<open>\w\<close>, \<open>\s\<close> as one-member classes\<close>
  | NCls "cmember list"       \<comment> \<open>\<open>[^...]\<close>\<close>

datatype regex =
    One atom
  | Rep atom nat "nat option"  \<comment> \<open>greedy: \<open>*\<close> is \<open>Rep a 0 None\<close>, \<open>+\<close> is \<open>Rep a 1 None\<close>,
                                   \<open>?\<close> is \<open>Rep a 0 (Some 1)\<close>, \<open>{m,n}\<close> is \<open>Rep a m (Some n)\<close>\<close>
  | Str string                 \<comment> \<open>a sequence of literal characters\<close>
  | Seq regex regex
  | Alt regex regex
  | Grp regex                  \<comment> \<open>the capturing group, number 1\<close>

fun member_ok :: "bool \<Rightarrow> cmember \<Rightarrow> char \<Rightarrow> bool" where
  "member_ok ic (Lit l) c = (if ic then canonicalize c = canonicalize l else c = l)"
| "member_ok ic Word c = isWordChar c"
| "member_ok ic Space c = isSpaceChar c"

fun atom_ok :: "bool \<Rightarrow> atom \<Rightarrow> char \<Rightarrow> bool" where
  "atom_ok ic (Chr l) c = member_ok ic (Lit l) c"
| "atom_ok ic (Cls ms) c = list_ex (\<lambda>m. member_ok ic m c) ms"
| "atom_ok ic (NCls ms) c = (\<not> list_ex (\<lambda>m. member_ok ic m c) ms)"

fun str_ok :: "bool \<Rightarrow> string \<Rightarrow> string \<Rightarrow> string option" where
  \<comment> \<open>the input left after the literal, when the input starts with it\<close>
  "str_ok ic [] inp = Some inp"
| "str_ok ic (l # ls) [] = None"
| "str_ok ic (l # ls) (c # cs) = (if atom_ok ic (Chr l) c then str_ok ic ls cs else None)"

fun run_length :: "bool \<Rightarrow> atom \<Rightarrow> nat option \<Rightarrow> string \<Rightarrow> nat" where
  \<comment> \<open>how many characters a greedy quantifier takes at first\<close>
  "run_length ic a hi [] = 0"
| "run_length ic a hi (c # cs) =
     (if hi = Some 0 then 0
      else if atom_ok ic a c
      then Suc (run_length ic a (case hi of None \<Rightarrow> None | Some h \<Rightarrow> Some (h - 1)) cs)
      else 0)"

type_synonym mstate = "string \<times> string option"

text \<open>
  \<open>run ic r (inp, cap)\<close> lists every way in which \<open>r\<close> matches a prefix of \<open>inp\<close>, in the
  order in which a backtracking matcher tries them: the input that is left, and the
  capture. The head of the list is the match that the matcher returns.
\<close>

fun run :: "bool \<Rightarrow> regex \<Rightarrow> mstate \<Rightarrow> mstate list" where
  "run ic (One a) (inp, cap) =
     (case inp of [] \<Rightarrow> [] | c # cs \<Rightarrow> if atom_ok ic a c then [(cs, cap)] else [])"
| "run ic (Rep a lo hi) (inp, cap) =
     map (\<lambda>k. (drop k inp, cap)) (rev [lo ..< Suc (run_length ic a hi inp)])"
| "run ic (Str s) (inp, cap) =
     (case str_ok ic s inp of None \<Rightarrow> [] | Some rest \<Rightarrow> [(rest, cap)])"
| "run ic (Seq r1 r2) st = concat (map (run ic r2) (run ic r1 st))"
| "run ic (Alt r1 r2) st = run ic r1 st @ run ic r2 st"
| "run ic (Grp r) (inp, cap) =
     map (\<lambda>(rest, _). (rest, Some (take (length inp - length rest) inp))) (run ic r (inp, cap))"

text \<open>The strings that a pattern can match at all, whatever the order of the attempts.\<close>

fun lang :: "bool \<Rightarrow> regex \<Rightarrow> string set" where
  "lang ic (One a) = {u. length u = 1 \<and> list_all (atom_ok ic a) u}"
| "lang ic (Rep a lo hi) =
     {u. lo \<le> length u \<and> (case hi of None \<Rightarrow> True | Some h \<Rightarrow> length u \<le> h) \<and>
         list_all (atom_ok ic a) u}"
| "lang ic (Str s) = {u. list_all2 (\<lambda>l c. atom_ok ic (Chr l) c) s u}"
| "lang ic (Seq r1 r2) = {u @ v | u v. u \<in> lang ic r1 \<and> v \<in> lang ic r2}"
| "lang ic (Alt r1 r2) = lang ic r1 \<union> lang ic r2"
| "lang ic (Grp r) = lang ic r"

fun seqs :: "regex list \<Rightarrow> regex" where
  "seqs [] = Str []"
| "seqs [r] = r"
| "seqs (r # rs) = Seq r (seqs rs)"

fun alts :: "regex list \<Rightarrow> regex" where
  "alts [] = One (Cls [])"
| "alts [r] = r"
| "alts (r # rs) = Alt r (alts rs)"

record pattern =
  source :: regex
  ignoreCase :: bool

definition exec_at :: "pattern \<Rightarrow> string \<Rightarrow> mstate option" where
  \<comment> \<open>the match that starts at the head of the input, if there is one\<close>
  "exec_at p inp = (case run (ignoreCase p) (source p) (inp, None) of [] \<Rightarrow> None | st # _ \<Rightarrow> Some st)"

text \<open>
  \<open>message.matchAll(pattern)\<close> with the \<open>g\<close> flag and \<open>lastIndex = 0\<close>: the leftmost
  match from the current index, then on from its end (one further when the match is
  empty). The result is the list of \<open>match[1]\<close>, \<open>None\<close> for \<open>undefined\<close>.
\<close>

function matchAll :: "pattern \<Rightarrow> string \<Rightarrow> string option list" where
  "matchAll p inp =
     (case exec_at p inp of
        None \<Rightarrow> (case inp of [] \<Rightarrow> [] | c # cs \<Rightarrow> matchAll p cs)
      | Some (rest, cap) \<Rightarrow>
          cap # (if length rest < length inp then matchAll p rest
                 else (case inp of [] \<Rightarrow> [] | c # cs \<Rightarrow> matchAll p cs)))"
  by pat_completeness auto
termination
  by (relation "measure (\<lambda>(p, inp). length inp)") auto

declare matchAll.simps [simp del]

section \<open>The patterns of the extractor\<close>

definition verb_path :: regex where
  \<comment> \<open>\<open>\s+`?([^\s`\n]+\.\w{1,6})`?\<close>\<close>
  "verb_path = seqs
     [Rep (Cls [Space]) 1 None,
      Rep (Chr CHR ''`'') 0 (Some 1),
      Grp (seqs [Rep (NCls [Space, Lit CHR ''`'', Lit CHR 0x0A]) 1 None,
                 One (Chr CHR ''.''),
                 Rep (Cls [Word]) 1 (Some 6)]),
      Rep (Chr CHR ''`'') 0 (Some 1)]"

definition CODE_BLOCK :: pattern where
  \<comment> \<open>\<open>/```\w*:([^\n`]+)/g\<close>\<close>
  "CODE_BLOCK = \<lparr>source = seqs
     [Str ''```'', Rep (Cls [Word]) 0 None, One (Chr CHR '':''),
      Grp (Rep (NCls [Lit CHR 0x0A, Lit CHR ''`'']) 1 None)],
     ignoreCase = False\<rparr>"

definition BACKTICK :: pattern where
  \<comment> \<open>\<open>/`([^`\s]+\.\w{1,6})`/g\<close>\<close>
  "BACKTICK = \<lparr>source = seqs
     [One (Chr CHR ''`''),
      Grp (seqs [Rep (NCls [Lit CHR ''`'', Space]) 1 None,
                 One (Chr CHR ''.''),
                 Rep (Cls [Word]) 1 (Some 6)]),
      One (Chr CHR ''`'')],
     ignoreCase = False\<rparr>"

definition QUOTED :: pattern where
  \<comment> \<open>\<open>/["']([^"'\s]+\.\w{1,6})["']/g\<close>\<close>
  "QUOTED = \<lparr>source = seqs
     [One (Cls [Lit CHR 0x22, Lit CHR 0x27]),
      Grp (seqs [Rep (NCls [Lit CHR 0x22, Lit CHR 0x27, Space]) 1 None,
                 One (Chr CHR ''.''),
                 Rep (Cls [Word]) 1 (Some 6)]),
      One (Cls [Lit CHR 0x22, Lit CHR 0x27])],
     ignoreCase = False\<rparr>"

definition READ_VERB :: pattern where
  \<comment> \<open>\<open>/(?:Read|List)\s+`?([^\s`\n]+\.\w{1,6})`?/gi\<close>\<close>
  "READ_VERB = \<lparr>source = Seq (alts [Str ''Read'', Str ''List'']) verb_path,
     ignoreCase = True\<rparr>"

definition READ_PATTERNS :: "pattern list" where
  "READ_PATTERNS = [CODE_BLOCK, BACKTICK, QUOTED, READ_VERB]"

definition WRITE_PATTERN :: pattern where
  \<comment> \<open>\<open>/(?:Create|Created|Modify|Modified|Update|Updated|Write|Wrote|Edit|Edited|Delete|Deleted)\<close>
      \<open>\s+`?([^\s`\n]+\.\w{1,6})`?/gi\<close>\<close>
  "WRITE_PATTERN = \<lparr>source = Seq
     (alts [Str ''Create'', Str ''Created'', Str ''Modify'', Str ''Modified'',
            Str ''Update'', Str ''Updated'', Str ''Write'', Str ''Wrote'',
            Str ''Edit'', Str ''Edited'', Str ''Delete'', Str ''Deleted''])
     verb_path,
     ignoreCase = True\<rparr>"

definition ACTION :: pattern where
  \<comment> \<open>the action pattern of the legacy list: read and write verbs in one alternation\<close>
  "ACTION = \<lparr>source = Seq
     (alts [Str ''Read'', Str ''List'', Str ''Create'', Str ''Created'', Str ''Modify'',
            Str ''Modified'', Str ''Update'', Str ''Updated'', Str ''Write'', Str ''Wrote'',
            Str ''Edit'', Str ''Edited'', Str ''Delete'', Str ''Deleted''])
     verb_path,
     ignoreCase = True\<rparr>"

definition PATTERNS :: "pattern list" where
  "PATTERNS = [CODE_BLOCK, BACKTICK, ACTION, QUOTED]"

section \<open>Paths\<close>

text \<open>
  The functions of the platform's \<open>path\<close> module that the extractor and the entry point
  call, in their POSIX form: the separator is \<open>/\<close>.
\<close>

fun splitSlash :: "string \<Rightarrow> string list" where
  "splitSlash [] = [[]]"
| "splitSlash (c # cs) =
     (if c = CHR ''/'' then [] # splitSlash cs
      else (case splitSlash cs of [] \<Rightarrow> [[c]] | s # ss \<Rightarrow> (c # s) # ss))"

fun joinSlash :: "string list \<Rightarrow> string" where
  "joinSlash [] = []"
| "joinSlash [s] = s"
| "joinSlash (s # ss) = s @ CHR ''/'' # joinSlash ss"

definition segment_step :: "bool \<Rightarrow> string \<Rightarrow> string list \<Rightarrow> string list" where
  \<comment> \<open>one segment of the path against the segments kept so far\<close>
  "segment_step allowAboveRoot seg res =
     (if seg = [] \<or> seg = ''.'' then res
      else if seg = ''..'' then
        (if res \<noteq> [] \<and> last res \<noteq> ''..'' then butlast res
         else if allowAboveRoot then res @ [''..'']
         else res)
      else res @ [seg])"

definition normalizeString :: "string \<Rightarrow> bool \<Rightarrow> string" where
  "normalizeString p allowAboveRoot =
     joinSlash (fold (segment_step allowAboveRoot) (splitSlash p) [])"

definition isAbsolute :: "string \<Rightarrow> bool" where
  "isAbsolute p = (case p of [] \<Rightarrow> False | c # _ \<Rightarrow> c = CHR ''/'')"

definition normalize :: "string \<Rightarrow> string" where
  "normalize p =
     (if p = [] then ''.''
      else
        let isAbs = isAbsolute p;
            trailingSeparator = (last p = CHR ''/'');
            q = normalizeString p (\<not> isAbs)
        in if q = [] then (if isAbs then ''/'' else if trailingSeparator then ''./'' else ''.'')
           else (if isAbs then ''/'' else []) @ q @ (if trailingSeparator then ''/'' else []))"

definition join :: "string list \<Rightarrow> string" where
  "join args =
     (let parts = filter (\<lambda>a. a \<noteq> []) args
      in if parts = [] then ''.'' else normalize (joinSlash parts))"

definition lastComponent :: "string \<Rightarrow> string" where
  \<comment> \<open>the path without its trailing separators, from its last separator on\<close>
  "lastComponent p =
     rev (takeWhile (\<lambda>c. c \<noteq> CHR ''/'') (dropWhile (\<lambda>c. c = CHR ''/'') (rev p)))"

definition basename :: "string \<Rightarrow> string" where
  "basename p = lastComponent p"

definition extname :: "string \<Rightarrow> string" where
  "extname p =
     (let b = lastComponent p
      in if CHR ''.'' \<notin> set b then []
         else
           let ext = rev (takeWhile (\<lambda>c. c \<noteq> CHR ''.'') (rev b));
               pre = take (length b - length ext - 1) b
           in if pre = [] \<or> b = ''..'' then [] else CHR ''.'' # ext)"

text \<open>
  A list of path segments in which nothing is left to resolve: no empty segment, no
  \<open>.\<close>, no \<open>..\<close>, and no separator inside a segment.
\<close>

definition is_dots :: "string \<Rightarrow> bool" where
  "is_dots s = (s = ''.'' \<or> s = ''..'')"

definition clean :: "string list \<Rightarrow> bool" where
  "clean segs = list_all (\<lambda>s. s \<noteq> [] \<and> \<not> is_dots s \<and> CHR ''/'' \<notin> set s) segs"

section \<open>The extractor\<close>

record ExtractedFile =
  path :: string
  isWrite :: bool

definition isValidFilePath :: "string \<Rightarrow> bool" where
  "isValidFilePath p =
     (if p = [] then False
      else if startsWith p ''http://'' \<or> startsWith p ''https://'' \<or> includes_str p ''://''
        then False
      else if list_ex (\<lambda>c. c \<in> set ''<>|?*'') p then False
      else
        let ext = toLowerCase (drop 1 (extname p))
        in if ext = [] then False
           else if length ext > 6 then False
           else True)"

definition normalizePath :: "string \<Rightarrow> string \<Rightarrow> string" where
  "normalizePath filePath cwd =
     (let cleaned = trim filePath
      in if isAbsolute cleaned then normalize cleaned
         else normalize (join [cwd, cleaned]))"

definition accepted :: "string \<Rightarrow> string option \<Rightarrow> string option" where
  \<comment> \<open>\<open>if (filePath && isValidFilePath(filePath))\<close>, then the normalized path\<close>
  "accepted cwd cap =
     (case cap of
        None \<Rightarrow> None
      | Some filePath \<Rightarrow>
          if filePath \<noteq> [] \<and> isValidFilePath filePath then Some (normalizePath filePath cwd)
          else None)"

text \<open>
  A \<open>Set\<close> and a \<open>Map\<close> keep their keys in the order of first insertion; setting a key
  that is present changes its value where it stands.
\<close>

definition set_add :: "'a \<Rightarrow> 'a list \<Rightarrow> 'a list" where
  "set_add x s = (if x \<in> set s then s else s @ [x])"

definition map_has :: "'k \<Rightarrow> ('k \<times> 'v) list \<Rightarrow> bool" where
  "map_has k m = (k \<in> set (map fst m))"

fun map_set :: "'k \<Rightarrow> 'v \<Rightarrow> ('k \<times> 'v) list \<Rightarrow> ('k \<times> 'v) list" where
  "map_set k v [] = [(k, v)]"
| "map_set k v ((k', v') # m) = (if k' = k then (k, v) # m else (k', v') # map_set k v m)"

definition extractFilePaths :: "string option \<Rightarrow> string \<Rightarrow> string list" where
  "extractFilePaths message cwd =
     (case message of
        None \<Rightarrow> []
      | Some msg \<Rightarrow>
          if msg = [] then []
          else fold (\<lambda>pattern files.
                 fold (\<lambda>cap files.
                    case accepted cwd cap of None \<Rightarrow> files | Some normalized \<Rightarrow> set_add normalized files)
                   (matchAll pattern msg) files)
               PATTERNS [])"

definition write_step :: "string \<Rightarrow> string option \<Rightarrow> (string \<times> bool) list \<Rightarrow> (string \<times> bool) list" where
  "write_step cwd cap fileMap =
     (case accepted cwd cap of None \<Rightarrow> fileMap | Some normalized \<Rightarrow> map_set normalized True fileMap)"

definition read_step :: "string \<Rightarrow> string option \<Rightarrow> (string \<times> bool) list \<Rightarrow> (string \<times> bool) list" where
  "read_step cwd cap fileMap =
     (case accepted cwd cap of
        None \<Rightarrow> fileMap
      | Some normalized \<Rightarrow>
          if \<not> map_has normalized fileMap then map_set normalized False fileMap else fileMap)"

definition extractFiles :: "string option \<Rightarrow> string \<Rightarrow> ExtractedFile list" where
  "extractFiles message cwd =
     (case message of
        None \<Rightarrow> []
      | Some msg \<Rightarrow>
          if msg = [] then []
          else
            let fileMap = fold (write_step cwd) (matchAll WRITE_PATTERN msg) [];
                fileMap = fold (\<lambda>pattern fileMap. fold (read_step cwd) (matchAll pattern msg) fileMap)
                            READ_PATTERNS fileMap
            in map (\<lambda>(filePath, w). \<lparr>path = filePath, isWrite = w\<rparr>) fileMap)"

text \<open>
  The vocabulary of the properties: the normalized paths that the scan of one pattern
  accepts, in the order of the scan; those of the write pass and of the read pass; and
  the elements of a list that are not in a given set, each at its first occurrence.
\<close>

definition paths_of :: "pattern \<Rightarrow> string \<Rightarrow> string \<Rightarrow> string list" where
  "paths_of pat msg cwd = List.map_filter (accepted cwd) (matchAll pat msg)"

definition write_paths :: "string \<Rightarrow> string \<Rightarrow> string list" where
  "write_paths msg cwd = paths_of WRITE_PATTERN msg cwd"

definition read_paths :: "string \<Rightarrow> string \<Rightarrow> string list" where
  "read_paths msg cwd = concat (map (\<lambda>pat. paths_of pat msg cwd) READ_PATTERNS)"

fun first_seen :: "'a set \<Rightarrow> 'a list \<Rightarrow> 'a list" where
  "first_seen seen [] = []"
| "first_seen seen (x # xs) =
     (if x \<in> seen then first_seen seen xs else x # first_seen (insert x seen) xs)"

section \<open>The entry point\<close>

record CodexNotification =
  n_type :: string                            \<comment> \<open>\<open>type\<close>\<close>
  n_thread_id :: string                       \<comment> \<open>\<open>"thread-id"\<close>\<close>
  n_turn_id :: string                         \<comment> \<open>\<open>"turn-id"\<close>\<close>
  n_cwd :: string                             \<comment> \<open>\<open>cwd\<close>\<close>
  n_input_messages :: "string list"           \<comment> \<open>\<open>"input-messages"\<close>\<close>
  n_last_assistant_message :: "string option" \<comment> \<open>\<open>"last-assistant-message"\<close>, \<open>None\<close> for \<open>null\<close>\<close>

datatype entityKind = File | App

record HeartbeatParams =
  entity :: string
  entityType :: entityKind
  category :: "string option"
  projectFolder :: "string option"
  project :: "string option"
  lineChanges :: "int option"
  heartbeatIsWrite :: "bool option"        \<comment> \<open>the field \<open>isWrite\<close>\<close>

text \<open>
  What one run does to the world outside, in order. The calls of the logger are left
  out; the hook installer, the dispatcher and the rate-limit state are other modules,
  and a call to one of them is an event.
\<close>

datatype event =
    InstallHook
  | UninstallHook
  | SendHeartbeat HeartbeatParams
  | UpdateLastHeartbeat

text \<open>
  What a run reads from outside: the result of \<open>JSON.parse\<close> on the argument (\<open>None\<close>
  when it throws or gives a falsy value), whether the rate limiter says a heartbeat is
  due, and whether the reporting executable is available.
\<close>

record environment =
  parseJson :: "string \<Rightarrow> CodexNotification option"
  shouldSendHeartbeat :: bool
  ensureCliInstalled :: bool

definition parseNotification :: "environment \<Rightarrow> string list \<Rightarrow> CodexNotification option" where
  "parseNotification env args =
     (case args of
        [] \<Rightarrow> None
      | jsonArg # _ \<Rightarrow>
          if jsonArg = [] then None
          else if startsWith jsonArg ''-'' then None
          else parseJson env jsonArg)"

definition main :: "environment \<Rightarrow> string list \<Rightarrow> event list" where
  "main env args =
     (if ''--install'' \<in> set args then [InstallHook]
      else if ''--uninstall'' \<in> set args then [UninstallHook]
      else
        case parseNotification env args of
          None \<Rightarrow> []
        | Some notification \<Rightarrow>
            if n_type notification \<noteq> ''agent-turn-complete'' then []
            else if \<not> shouldSendHeartbeat env then []
            else if \<not> ensureCliInstalled env then []
            else
              let assistantMessage =
                    (case n_last_assistant_message notification of None \<Rightarrow> [] | Some m \<Rightarrow> m);
                  dir = n_cwd notification;
                  files = extractFiles (Some assistantMessage) dir
              in (if length files > 0
                  then map (\<lambda>file. SendHeartbeat
                         \<lparr>entity = path file, entityType = File, category = Some ''ai coding'',
                          projectFolder = Some dir, project = None, lineChanges = None,
                          heartbeatIsWrite = Some (isWrite file)\<rparr>) files
                  else [SendHeartbeat
                         \<lparr>entity = dir, entityType = App, category = Some ''ai coding'',
                          projectFolder = None, project = Some (basename dir),
                          lineChanges = None, heartbeatIsWrite = None\<rparr>])
                 @ [UpdateLastHeartbeat])"

fun is_dispatch :: "event \<Rightarrow> bool" where
  "is_dispatch (SendHeartbeat _) = True"
| "is_dispatch _ = False"

section \<open>The rate limiter\<close>

record RateLimitState =
  lastHeartbeatAt :: "int option"

text \<open>
  Modelled from the spec: the module of the rate limiter (\<open>shouldSendHeartbeat\<close>,
  \<open>updateLastHeartbeat\<close>) is not among the sources; only its state type is. The spec:
  "\<open>isDue\<close> returns true if no prior timestamp is recorded, or if
  \<open>now - lastHeartbeatAt >= 60 seconds\<close>; otherwise false." Timestamps are in seconds.
\<close>

definition isDue :: "RateLimitState \<Rightarrow> int \<Rightarrow> bool" where
  "isDue st now =
     (case lastHeartbeatAt st of None \<Rightarrow> True | Some t \<Rightarrow> now - t \<ge> 60)"

text \<open>
  Modelled from the spec: "\<open>recordSuccess\<close> overwrites the single timestamp field".
\<close>

definition recordSuccess :: "RateLimitState \<Rightarrow> int \<Rightarrow> RateLimitState" where
  "recordSuccess st now = st\<lparr>lastHeartbeatAt := Some now\<rparr>"

section \<open>Properties of the matcher\<close>

lemma run_length_take:
  "k \<le> run_length ic a hi inp \<Longrightarrow>
   k \<le> length inp \<and> list_all (atom_ok ic a) (take k inp) \<and>
   (case hi of None \<Rightarrow> True | Some h \<Rightarrow> k \<le> h)"
proof (induction ic a hi inp arbitrary: k rule: run_length.induct)
  case (1 ic a hi)
  then show ?case by (simp split: option.splits)
next
  case (2 ic a hi c cs)
  show ?case
  proof (cases k)
    case 0
    then show ?thesis by (simp split: option.splits)
  next
    case (Suc j)
    with "2.prems" have ok: "hi \<noteq> Some 0" "atom_ok ic a c"
      and j: "j \<le> run_length ic a (case hi of None \<Rightarrow> None | Some h \<Rightarrow> Some (h - 1)) cs"
      by (auto split: if_splits)
    from "2.IH" [OF ok j] ok Suc show ?thesis
      by (auto split: option.splits)
  qed
qed

lemma str_ok_sound:
  "str_ok ic s inp = Some rest \<Longrightarrow>
   \<exists>u. inp = u @ rest \<and> list_all2 (\<lambda>l c. atom_ok ic (Chr l) c) s u"
proof (induction ic s inp rule: str_ok.induct)
  case (1 ic inp)
  then show ?case by simp
next
  case (2 ic l ls)
  then show ?case by simp
next
  case (3 ic l ls c cs)
  then obtain u where "cs = u @ rest" "list_all2 (\<lambda>l c. atom_ok ic (Chr l) c) ls u"
      and ok: "atom_ok ic (Chr l) c"
    by (auto split: if_splits)
  then have "c # cs = (c # u) @ rest \<and>
      list_all2 (\<lambda>l c. atom_ok ic (Chr l) c) (l # ls) (c # u)" by simp
  then show ?case by blast
qed

text \<open>Whatever the matcher returns is a prefix of the input that the pattern can match.\<close>

lemma run_sound:
  "(rest, cap') \<in> set (run ic r (inp, cap)) \<Longrightarrow> \<exists>u. inp = u @ rest \<and> u \<in> lang ic r"
proof (induction r arbitrary: inp cap rest cap')
  case (One a)
  then show ?case by (auto split: list.splits if_splits)
next
  case (Rep a lo hi)
  then obtain k where k: "lo \<le> k" "k \<le> run_length ic a hi inp" "rest = drop k inp" by auto
  from run_length_take [OF k(2)] k(1,3)
  have "inp = take k inp @ rest \<and> take k inp \<in> lang ic (Rep a lo hi)"
    by (auto split: option.splits)
  then show ?case by blast
next
  case (Str s)
  then have "str_ok ic s inp = Some rest" by (auto split: option.splits)
  from str_ok_sound [OF this] show ?case by (simp del: atom_ok.simps)
next
  case (Seq r1 r2)
  then obtain mid capm where m: "(mid, capm) \<in> set (run ic r1 (inp, cap))"
      "(rest, cap') \<in> set (run ic r2 (mid, capm))"
    by auto
  from Seq.IH(1) [OF m(1)] obtain u where u: "inp = u @ mid" "u \<in> lang ic r1" by blast
  from Seq.IH(2) [OF m(2)] obtain v where v: "mid = v @ rest" "v \<in> lang ic r2" by blast
  from u v have "inp = (u @ v) @ rest \<and> u @ v \<in> lang ic (Seq r1 r2)" by auto
  then show ?case by blast
next
  case (Alt r1 r2)
  then show ?case by fastforce
next
  case (Grp r)
  then show ?case by auto
qed

lemma run_Grp_capture:
  assumes "(rest, cap') \<in> set (run ic (Grp r) (inp, cap))"
  shows "\<exists>u. inp = u @ rest \<and> u \<in> lang ic r \<and> cap' = Some u"
proof -
  from assms obtain c0 where c0: "(rest, c0) \<in> set (run ic r (inp, cap))"
    and cap': "cap' = Some (take (length inp - length rest) inp)" by auto
  from run_sound [OF c0] obtain u where "inp = u @ rest" "u \<in> lang ic r" by blast
  with cap' show ?thesis by auto
qed

lemma run_One_cap: "(rest, cap') \<in> set (run ic (One a) (inp, cap)) \<Longrightarrow> cap' = cap"
  by (auto split: list.splits if_splits)

lemma run_Seq_mem:
  "st' \<in> set (run ic (Seq r1 r2) st) \<longleftrightarrow>
   (\<exists>mid \<in> set (run ic r1 st). st' \<in> set (run ic r2 mid))"
  by simp

text \<open>Every element of the result of \<open>matchAll\<close> is the capture of a match somewhere.\<close>

lemma matchAll_mem:
  "x \<in> set (matchAll p inp) \<Longrightarrow> \<exists>inp' rest. exec_at p inp' = Some (rest, x)"
proof (induction p inp rule: matchAll.induct)
  case (1 p inp)
  show ?case
  proof (cases "exec_at p inp")
    case None
    with "1.prems" obtain c cs where "inp = c # cs" "x \<in> set (matchAll p cs)"
      by (subst (asm) matchAll.simps) (auto split: list.splits)
    with "1.IH"(1) [OF None] show ?thesis by blast
  next
    case (Some st)
    obtain rest cap where st: "st = (rest, cap)" by (cases st)
    show ?thesis
    proof (cases "x = cap")
      case True
      with Some st show ?thesis by blast
    next
      case False
      show ?thesis
      proof (cases "length rest < length inp")
        case True
        with \<open>x \<noteq> cap\<close> "1.prems" Some st have "x \<in> set (matchAll p rest)"
          by (subst (asm) matchAll.simps) auto
        with "1.IH"(2) Some st True show ?thesis by blast
      next
        case nl: False
        with \<open>x \<noteq> cap\<close> "1.prems" Some st
        obtain c cs where "inp = c # cs" "x \<in> set (matchAll p cs)"
          by (subst (asm) matchAll.simps) (auto split: list.splits)
        with "1.IH"(3) Some st nl show ?thesis by blast
      qed
    qed
  qed
qed

lemma exec_at_mem:
  "exec_at p inp = Some st \<Longrightarrow> st \<in> set (run (ignoreCase p) (source p) (inp, None))"
  by (auto simp: exec_at_def split: list.splits)

lemma matchAll_Nil:
  "matchAll p [] = (case exec_at p [] of None \<Rightarrow> [] | Some (rest, cap) \<Rightarrow> [cap])"
  by (subst matchAll.simps) (auto split: option.splits)

lemma paths_of_Nil:
  "p \<in> set PATTERNS \<or> p \<in> set READ_PATTERNS \<or> p = WRITE_PATTERN \<Longrightarrow> paths_of p [] cwd = []"
  by (auto simp: paths_of_def matchAll_Nil exec_at_def PATTERNS_def READ_PATTERNS_def
        CODE_BLOCK_def BACKTICK_def QUOTED_def READ_VERB_def WRITE_PATTERN_def ACTION_def
        verb_path_def)

text \<open>A capture of the single-backtick pattern: something, a dot, one to six word characters.\<close>

lemma backtick_capture:
  assumes "Some c \<in> set (matchAll BACKTICK msg)"
  shows "\<exists>x w. c = x @ CHR ''.'' # w \<and> x \<noteq> [] \<and> 1 \<le> length w \<and> length w \<le> 6 \<and>
           list_all isWordChar w"
proof -
  let ?G = "seqs [Rep (NCls [Lit CHR ''`'', Space]) 1 None, One (Chr CHR ''.''),
                  Rep (Cls [Word]) 1 (Some 6)]"
  from matchAll_mem [OF assms] obtain inp rest
    where "exec_at BACKTICK inp = Some (rest, Some c)" by blast
  from exec_at_mem [OF this]
  have "(rest, Some c) \<in> set (run False
          (Seq (One (Chr CHR ''`'')) (Seq (Grp ?G) (One (Chr CHR ''`'')))) (inp, None))"
    by (simp add: BACKTICK_def)
  then obtain m1 m2 where
    "m1 \<in> set (run False (One (Chr CHR ''`'')) (inp, None))" and
    "m2 \<in> set (run False (Grp ?G) m1)" and
    "(rest, Some c) \<in> set (run False (One (Chr CHR ''`'')) m2)"
    unfolding run_Seq_mem by blast
  then have
    s2: "(fst m2, snd m2) \<in> set (run False (Grp ?G) (fst m1, snd m1))" and
    s3: "(rest, Some c) \<in> set (run False (One (Chr CHR ''`'')) (fst m2, snd m2))"
    by simp_all
  from run_One_cap [OF s3] have "snd m2 = Some c" by simp
  with run_Grp_capture [OF s2] have "c \<in> lang False ?G" by auto
  then obtain x d w where "c = x @ d @ w" "1 \<le> length x" "d = [CHR ''.'']"
     "1 \<le> length w" "length w \<le> 6" "list_all isWordChar w"
    by (auto simp: list_all_iff length_Suc_conv)
  then have "c = x @ CHR ''.'' # w \<and> x \<noteq> [] \<and> 1 \<le> length w \<and> length w \<le> 6 \<and>
      list_all isWordChar w" by auto
  then show ?thesis by blast
qed

section \<open>Properties of the path functions\<close>

lemma word_not_sep: "list_all isWordChar w \<Longrightarrow> CHR ''.'' \<notin> set w \<and> CHR ''/'' \<notin> set w"
  by (auto simp: list_all_iff isWordChar_def)

lemma extname_suffix:
  assumes dot: "CHR ''.'' \<notin> set w" and sl: "CHR ''/'' \<notin> set w" and ne: "w \<noteq> []"
  shows "extname (x @ CHR ''.'' # w) = [] \<or> extname (x @ CHR ''.'' # w) = CHR ''.'' # w"
proof -
  let ?y = "rev (takeWhile (\<lambda>c. c \<noteq> CHR ''/'') (rev x))"
  from ne obtain a as where rw: "rev w = a # as" by (cases "rev w") auto
  with sl have "a \<noteq> CHR ''/''" by (metis list.set_intros(1) set_rev)
  then have d: "dropWhile (\<lambda>c. c = CHR ''/'') (rev (x @ CHR ''.'' # w)) = rev w @ CHR ''.'' # rev x"
    using rw by simp
  have t: "takeWhile (\<lambda>c. c \<noteq> CHR ''/'') (rev w @ CHR ''.'' # rev x) =
      rev w @ CHR ''.'' # takeWhile (\<lambda>c. c \<noteq> CHR ''/'') (rev x)"
    using sl by (subst takeWhile_append2) auto
  have b: "lastComponent (x @ CHR ''.'' # w) = ?y @ CHR ''.'' # w"
    unfolding lastComponent_def d t by simp
  have e: "rev (takeWhile (\<lambda>c. c \<noteq> CHR ''.'') (rev (?y @ CHR ''.'' # w))) = w"
    using dot by (simp, subst takeWhile_append2) auto
  show ?thesis
    unfolding extname_def b Let_def e by simp
qed

lemma startsWith_iff: "startsWith s p \<longleftrightarrow> (\<exists>r. s = p @ r)"
  by (induction s p rule: startsWith.induct) auto

lemma includes_str_iff: "includes_str s p \<longleftrightarrow> (\<exists>a r. s = a @ p @ r)"
proof (induction s)
  case Nil
  then show ?case by auto
next
  case (Cons c cs)
  show ?case
  proof
    assume "includes_str (c # cs) p"
    then consider "startsWith (c # cs) p" | "includes_str cs p" by auto
    then show "\<exists>a r. c # cs = a @ p @ r"
    proof cases
      case 1
      then obtain r where "c # cs = [] @ p @ r" by (auto simp: startsWith_iff)
      then show ?thesis by blast
    next
      case 2
      with Cons obtain a r where "cs = a @ p @ r" by blast
      then have "c # cs = (c # a) @ p @ r" by simp
      then show ?thesis by blast
    qed
  next
    assume "\<exists>a r. c # cs = a @ p @ r"
    then obtain a r where ar: "c # cs = a @ p @ r" by blast
    show "includes_str (c # cs) p"
    proof (cases a)
      case Nil
      with ar have "startsWith (c # cs) p" by (auto simp: startsWith_iff)
      then show ?thesis by simp
    next
      case (Cons c' a')
      with ar have "cs = a' @ p @ r" by simp
      with Cons.IH have "includes_str cs p" by blast
      then show ?thesis by simp
    qed
  qed
qed

lemma length_toLowerCase: "length (toLowerCase s) = length s"
  by (simp add: toLowerCase_def)

text \<open>The validator, as one condition.\<close>

lemma isValidFilePath_iff:
  "isValidFilePath p \<longleftrightarrow>
     p \<noteq> [] \<and> \<not> includes_str p ''://'' \<and> \<not> list_ex (\<lambda>c. c \<in> set ''<>|?*'') p \<and>
     drop 1 (extname p) \<noteq> [] \<and> length (drop 1 (extname p)) \<le> 6"
proof -
  have http: "startsWith p ''http://'' \<Longrightarrow> includes_str p ''://''"
  proof -
    assume "startsWith p ''http://''"
    then obtain r where "p = ''http'' @ ''://'' @ r" by (auto simp: startsWith_iff)
    then show ?thesis unfolding includes_str_iff by blast
  qed
  have https: "startsWith p ''https://'' \<Longrightarrow> includes_str p ''://''"
  proof -
    assume "startsWith p ''https://''"
    then obtain r where "p = ''https'' @ ''://'' @ r" by (auto simp: startsWith_iff)
    then show ?thesis unfolding includes_str_iff by blast
  qed
  have low: "toLowerCase (drop 1 (extname p)) = [] \<longleftrightarrow> drop 1 (extname p) = []"
    using length_toLowerCase [of "drop 1 (extname p)"] by (metis length_0_conv)
  show ?thesis
    unfolding isValidFilePath_def Let_def low length_toLowerCase
    using http https by auto
qed

lemma valid_extname_nonempty: "isValidFilePath c \<Longrightarrow> extname c \<noteq> []"
  by (auto simp: isValidFilePath_iff)

section \<open>Properties of the two passes\<close>

lemma set_first_seen: "set (first_seen S xs) = set xs - S"
  by (induction xs arbitrary: S) auto

lemma distinct_first_seen: "distinct (first_seen S xs)"
  by (induction xs arbitrary: S) (auto simp: set_first_seen)

lemma map_set_absent: "k \<notin> fst ` set m \<Longrightarrow> map_set k v m = m @ [(k, v)]"
  by (induction m) auto

lemma map_set_same: "(k, v) \<in> set m \<Longrightarrow> \<forall>(k', v') \<in> set m. v' = v \<Longrightarrow> map_set k v m = m"
  by (induction m) auto

lemma fold_write_step:
  "fold (write_step cwd) caps m =
   fold (\<lambda>n. map_set n True) (List.map_filter (accepted cwd) caps) m"
  by (induction caps arbitrary: m) (auto simp: write_step_def split: option.splits)

lemma fold_read_step:
  "fold (read_step cwd) caps m =
   fold (\<lambda>n m. if map_has n m then m else m @ [(n, False)])
     (List.map_filter (accepted cwd) caps) m"
  by (induction caps arbitrary: m)
     (auto simp: read_step_def map_has_def map_set_absent split: option.splits)

lemma write_pass:
  "\<forall>(k, v) \<in> set m. v = True \<Longrightarrow>
   fold (\<lambda>n. map_set n True) W m = m @ map (\<lambda>k. (k, True)) (first_seen (fst ` set m) W)"
proof (induction W arbitrary: m)
  case Nil
  then show ?case by simp
next
  case (Cons n W)
  show ?case
  proof (cases "n \<in> fst ` set m")
    case True
    then have "(n, True) \<in> set m" using Cons.prems by force
    then have "map_set n True m = m" using Cons.prems by (rule map_set_same)
    then show ?thesis using Cons True by simp
  next
    case False
    then have eq: "map_set n True m = m @ [(n, True)]" by (rule map_set_absent)
    have "\<forall>(k, v) \<in> set (m @ [(n, True)]). v = True" using Cons.prems by auto
    from Cons.IH [OF this] show ?thesis using False eq by simp
  qed
qed

lemma read_pass:
  "fold (\<lambda>n m. if map_has n m then m else m @ [(n, False)]) R m =
   m @ map (\<lambda>k. (k, False)) (first_seen (fst ` set m) R)"
  by (induction R arbitrary: m) (auto simp: map_has_def)

lemma fold_read_patterns:
  "fold (\<lambda>pattern fileMap. fold (read_step cwd) (matchAll pattern msg) fileMap) pats m =
   fold (\<lambda>n m. if map_has n m then m else m @ [(n, False)])
     (concat (map (\<lambda>pat. paths_of pat msg cwd) pats)) m"
  by (induction pats arbitrary: m) (auto simp: fold_read_step paths_of_def)

text \<open>
  The result of the extractor in closed form: the paths of the write pass, each once
  and flagged as written, then the paths of the read pass that the write pass did not
  yield, each once and flagged as read.
\<close>

lemma extractFiles_char:
  "extractFiles (Some msg) cwd =
     map (\<lambda>p. \<lparr>path = p, isWrite = True\<rparr>) (first_seen {} (write_paths msg cwd)) @
     map (\<lambda>p. \<lparr>path = p, isWrite = False\<rparr>)
       (first_seen (set (write_paths msg cwd)) (read_paths msg cwd))"
proof (cases "msg = []")
  case True
  have "write_paths [] cwd = []"
    by (simp add: write_paths_def paths_of_Nil)
  moreover have "read_paths [] cwd = []"
    by (simp add: read_paths_def paths_of_Nil READ_PATTERNS_def PATTERNS_def)
  ultimately show ?thesis using True by (simp add: extractFiles_def)
next
  case False
  let ?W = "write_paths msg cwd"
  let ?m = "map (\<lambda>k. (k, True)) (first_seen {} ?W)"
  have w: "fold (write_step cwd) (matchAll WRITE_PATTERN msg) [] = ?m"
    using write_pass [of "[]" ?W] by (simp add: fold_write_step write_paths_def paths_of_def)
  show ?thesis using False
    by (simp add: extractFiles_def Let_def w fold_read_patterns read_pass read_paths_def
        image_image set_first_seen comp_def)
qed

lemma filter_eq_distinct: "distinct xs \<Longrightarrow> x \<in> set xs \<Longrightarrow> filter (\<lambda>y. y = x) xs = [x]"
  by (induction xs) (auto simp: filter_id_conv filter_empty_conv)





section \<open>Properties of normalization\<close>

lemma splitSlash_nonempty: "splitSlash p \<noteq> []"
  by (induction p) (auto split: list.splits)

lemma splitSlash_no_slash: "s \<in> set (splitSlash p) \<Longrightarrow> CHR ''/'' \<notin> set s"
  by (induction p arbitrary: s) (auto split: list.splits if_splits)

lemma segment_step_clean:
  "clean res \<Longrightarrow> CHR ''/'' \<notin> set seg \<Longrightarrow> clean (segment_step False seg res)"
  by (auto simp: clean_def segment_step_def is_dots_def list_all_iff dest: in_set_butlastD)

lemma fold_segment_step_clean:
  "clean res \<Longrightarrow> \<forall>s \<in> set segs. CHR ''/'' \<notin> set s \<Longrightarrow> clean (fold (segment_step False) segs res)"
  by (induction segs arbitrary: res) (auto simp: segment_step_clean)

lemma splitSlash_plain: "CHR ''/'' \<notin> set s \<Longrightarrow> splitSlash s = [s]"
  by (induction s) auto

lemma splitSlash_append: "CHR ''/'' \<notin> set s \<Longrightarrow> splitSlash (s @ CHR ''/'' # r) = s # splitSlash r"
  by (induction s) auto

lemma splitSlash_joinSlash:
  "segs \<noteq> [] \<Longrightarrow> \<forall>s \<in> set segs. CHR ''/'' \<notin> set s \<Longrightarrow> splitSlash (joinSlash segs) = segs"
  by (induction segs rule: joinSlash.induct) (auto simp: splitSlash_plain splitSlash_append)

lemma joinSlash_snoc: "segs \<noteq> [] \<Longrightarrow> joinSlash (segs @ [s]) = joinSlash segs @ CHR ''/'' # s"
  by (induction segs rule: joinSlash.induct) auto

lemma joinSlash_Cons: "segs \<noteq> [] \<Longrightarrow> joinSlash (s # segs) = s @ CHR ''/'' # joinSlash segs"
  by (cases segs) auto

lemma joinSlash_clean_empty: "clean segs \<Longrightarrow> joinSlash segs = [] \<longleftrightarrow> segs = []"
  by (induction segs rule: joinSlash.induct) (auto simp: clean_def)

lemma normalize_absolute:
  assumes "isAbsolute p"
  shows "\<exists>segs t. clean segs \<and> (t = [] \<or> t = [[]]) \<and> isAbsolute (normalize p) \<and>
           splitSlash (normalize p) = [] # segs @ t"
proof -
  let ?segs = "fold (segment_step False) (splitSlash p) []"
  have cl: "clean ?segs"
    by (rule fold_segment_step_clean) (auto simp: clean_def splitSlash_no_slash)
  from assms have pne: "p \<noteq> []" by (auto simp: isAbsolute_def)
  show ?thesis
  proof (cases "?segs = []")
    case True
    with assms pne have "normalize p = ''/''"
      by (simp add: normalize_def normalizeString_def Let_def)
    then have "splitSlash (normalize p) = [] # [] @ [[]]" "isAbsolute (normalize p)"
      by (simp_all add: isAbsolute_def)
    moreover have "clean []" by (simp add: clean_def)
    ultimately show ?thesis by blast
  next
    case False
    with cl have qne: "joinSlash ?segs \<noteq> []" by (simp add: joinSlash_clean_empty)
    from cl have ns: "\<forall>s \<in> set ?segs. CHR ''/'' \<notin> set s" by (auto simp: clean_def list_all_iff)
    show ?thesis
    proof (cases "last p = CHR ''/''")
      case True
      with assms pne qne have n: "normalize p = CHR ''/'' # joinSlash ?segs @ ''/''"
        by (simp add: normalize_def normalizeString_def Let_def)
      also have "\<dots> = joinSlash ([] # ?segs @ [[]])"
        using False by (simp add: joinSlash_Cons joinSlash_snoc)
      finally have "splitSlash (normalize p) = [] # ?segs @ [[]]"
        using ns by (simp add: splitSlash_joinSlash)
      moreover from n have "isAbsolute (normalize p)" by (simp add: isAbsolute_def)
      ultimately show ?thesis using cl by blast
    next
      case nt: False
      with assms pne qne have n: "normalize p = CHR ''/'' # joinSlash ?segs"
        by (simp add: normalize_def normalizeString_def Let_def)
      also have "\<dots> = joinSlash ([] # ?segs)"
        using False by (simp add: joinSlash_Cons)
      finally have "splitSlash (normalize p) = [] # ?segs @ []"
        using ns by (simp add: splitSlash_joinSlash)
      moreover from n have "isAbsolute (normalize p)" by (simp add: isAbsolute_def)
      ultimately show ?thesis using cl by blast
    qed
  qed
qed

lemma normalize_absolute_resolved:
  assumes "isAbsolute p"
  shows "isAbsolute (normalize p) \<and> list_all (\<lambda>s. \<not> is_dots s) (splitSlash (normalize p))"
proof -
  from normalize_absolute [OF assms] obtain segs t where
    st: "clean segs" "t = [] \<or> t = [[]]" "isAbsolute (normalize p)"
      "splitSlash (normalize p) = [] # segs @ t" by blast
  have e: "\<not> is_dots []" by (simp add: is_dots_def)
  from st(1,2) e have "list_all (\<lambda>s. \<not> is_dots s) ([] # segs @ t)"
    by (auto simp: clean_def list_all_iff)
  with st(3,4) show ?thesis by simp
qed

lemma join_absolute: "isAbsolute cwd \<Longrightarrow> isAbsolute (join [cwd, q])"
  by (cases cwd; cases q) (auto simp: join_def isAbsolute_def normalize_def Let_def)

section \<open>The claims\<close>

text \<open>
  C1. When a normalized path is accepted at least once from the scan of the write-verb
  pattern and at least once from the scan of a read pattern (code-block header, single
  backticks, quotes or read verb) of the same message, in whatever order they stand in
  the text, \<open>extractFiles\<close> returns exactly one record for this path, and its
  flag \<open>isWrite\<close> is true.
\<close>

theorem write_wins_over_read:
  assumes "p \<in> set (write_paths msg cwd)" and "p \<in> set (read_paths msg cwd)"
  shows "filter (\<lambda>f. path f = p) (extractFiles (Some msg) cwd) = [\<lparr>path = p, isWrite = True\<rparr>]"
proof -
  let ?W = "first_seen {} (write_paths msg cwd)"
  let ?R = "first_seen (set (write_paths msg cwd)) (read_paths msg cwd)"
  from assms(1) have "p \<in> set ?W" by (simp add: set_first_seen)
  with distinct_first_seen [of "{}" "write_paths msg cwd"]
  have w: "filter (\<lambda>y. y = p) ?W = [p]" by (simp add: filter_eq_distinct)
  from assms(1) have "p \<notin> set ?R" by (simp add: set_first_seen)
  then have r: "filter (\<lambda>y. y = p) ?R = []" by (auto simp: filter_empty_conv)
  show ?thesis
    by (simp add: extractFiles_char filter_map comp_def w r)
qed

theorem write_wins_over_read_witness:
  "''/p/a.ts'' \<in> set (write_paths ''Read `a.ts` then Edited a.ts'' ''/p'') \<and>
   ''/p/a.ts'' \<in> set (read_paths ''Read `a.ts` then Edited a.ts'' ''/p'') \<and>
   filter (\<lambda>f. path f = ''/p/a.ts'') (extractFiles (Some ''Read `a.ts` then Edited a.ts'') ''/p'')
     = [\<lparr>path = ''/p/a.ts'', isWrite = True\<rparr>] \<and>
   ''/p/a.ts'' \<in> set (write_paths ''Created a.ts. Read `a.ts`'' ''/p'') \<and>
   ''/p/a.ts'' \<in> set (read_paths ''Created a.ts. Read `a.ts`'' ''/p'') \<and>
   filter (\<lambda>f. path f = ''/p/a.ts'') (extractFiles (Some ''Created a.ts. Read `a.ts`'') ''/p'')
     = [\<lparr>path = ''/p/a.ts'', isWrite = True\<rparr>]"
proof -
  have w1: "''/p/a.ts'' \<in> set (write_paths ''Read `a.ts` then Edited a.ts'' ''/p'')"
    by code_simp
  have r1: "''/p/a.ts'' \<in> set (read_paths ''Read `a.ts` then Edited a.ts'' ''/p'')"
    by code_simp
  have w2: "''/p/a.ts'' \<in> set (write_paths ''Created a.ts. Read `a.ts`'' ''/p'')"
    by code_simp
  have r2: "''/p/a.ts'' \<in> set (read_paths ''Created a.ts. Read `a.ts`'' ''/p'')"
    by code_simp
  from write_wins_over_read [OF w1 r1] write_wins_over_read [OF w2 r2] w1 r1 w2 r2
  show ?thesis by simp
qed

text \<open>
  C2. With a recorded timestamp \<open>T\<close>, \<open>isDue\<close> is false at \<open>T + 59\<close> seconds and true at
  \<open>T + 60\<close> seconds; with no recorded timestamp, \<open>isDue\<close> is true at any time.
\<close>

theorem isDue_threshold:
  "isDue \<lparr>lastHeartbeatAt = Some T\<rparr> (T + 59) = False \<and>
   isDue \<lparr>lastHeartbeatAt = Some T\<rparr> (T + 60) = True \<and>
   isDue \<lparr>lastHeartbeatAt = None\<rparr> now = True"
  by (simp add: isDue_def)

text \<open>
  C3. The validator accepts a string only if it is not empty, contains no \<open>://\<close>,
  contains none of \<open><>|?*\<close> and has an extension of one to six characters: this is
  \<open>isValidFilePath_iff\<close> above. A message that holds nothing but a URL is to give no
  record. The code gives one when the URL follows the opening of a code fence: the
  code-block pattern takes the scheme for the language tag, and the capture starts
  after the colon.
\<close>

theorem url_after_code_fence:
  "matchAll CODE_BLOCK ''```https://example.com/file.ts'' = [Some ''//example.com/file.ts''] \<and>
   isValidFilePath ''//example.com/file.ts'' \<and>
   extractFiles (Some ''```https://example.com/file.ts'') ''/project''
     = [\<lparr>path = ''/example.com/file.ts'', isWrite = False\<rparr>] \<and>
   extractFiles (Some ''Check https://example.com/file.ts for reference.'') ''/project'' = []"
  by code_simp

text \<open>
  C4. \<open>normalizePath\<close> trims the raw path first. When the trimmed path is absolute the
  result is its normal form; otherwise the result is the normal form of the working
  directory joined with the trimmed path. When the trimmed path or the working directory
  is absolute, the result is absolute and has no segment \<open>.\<close> or \<open>..\<close> left.
\<close>

theorem normalizePath_cases:
  "normalizePath filePath cwd =
     (if isAbsolute (trim filePath) then normalize (trim filePath)
      else normalize (join [cwd, trim filePath])) \<and>
   (isAbsolute (trim filePath) \<or> isAbsolute cwd \<longrightarrow>
      isAbsolute (normalizePath filePath cwd) \<and>
      list_all (\<lambda>s. s \<noteq> ''.'' \<and> s \<noteq> ''..'') (splitSlash (normalizePath filePath cwd)))"
proof -
  have r: "\<And>p. isAbsolute p \<Longrightarrow> isAbsolute (normalize p) \<and>
      list_all (\<lambda>s. s \<noteq> ''.'' \<and> s \<noteq> ''..'') (splitSlash (normalize p))"
    using normalize_absolute_resolved by (simp add: is_dots_def)
  show ?thesis
  proof (cases "isAbsolute (trim filePath)")
    case True
    with r [OF True] show ?thesis by (simp add: normalizePath_def)
  next
    case False
    then have eq: "normalizePath filePath cwd = normalize (join [cwd, trim filePath])"
      by (simp add: normalizePath_def)
    show ?thesis
    proof (cases "isAbsolute cwd")
      case True
      from r [OF join_absolute [OF True, of "trim filePath"]] eq False show ?thesis by simp
    next
      case nc: False
      with eq False show ?thesis by simp
    qed
  qed
qed

theorem normalizePath_cases_witness:
  "normalizePath '' /a/./b/../c.ts  '' ''/p'' = ''/a/c.ts'' \<and>
   normalizePath '' src/../lib/./a.ts'' ''/p'' = ''/p/lib/a.ts''"
proof -
  have a: "trim '' /a/./b/../c.ts  '' = ''/a/./b/../c.ts''" by code_simp
  have b: "trim '' src/../lib/./a.ts'' = ''src/../lib/./a.ts''" by code_simp
  have c: "normalize ''/a/./b/../c.ts'' = ''/a/c.ts''" by code_simp
  have d: "normalize (join [''/p'', ''src/../lib/./a.ts'']) = ''/p/lib/a.ts''" by code_simp
  from normalizePath_cases [of "'' /a/./b/../c.ts  ''" "''/p''"]
       normalizePath_cases [of "'' src/../lib/./a.ts''" "''/p''"]
  show ?thesis unfolding a b c d by (simp add: isAbsolute_def)
qed

text \<open>
  C5. The records of \<open>extractFiles\<close> have pairwise distinct paths. They stand in the
  order of first detection: first the paths of the write pass, each once, at its first
  occurrence in that pass; then the paths that only the read pass yields, each once, at
  its first occurrence in that pass.
\<close>

theorem extractFiles_order:
  "distinct (map path (extractFiles (Some msg) cwd)) \<and>
   extractFiles (Some msg) cwd =
     map (\<lambda>p. \<lparr>path = p, isWrite = True\<rparr>) (first_seen {} (write_paths msg cwd)) @
     map (\<lambda>p. \<lparr>path = p, isWrite = False\<rparr>)
       (first_seen (set (write_paths msg cwd)) (read_paths msg cwd))"
proof -
  have "set (first_seen {} (write_paths msg cwd)) \<inter>
        set (first_seen (set (write_paths msg cwd)) (read_paths msg cwd)) = {}"
    by (auto simp: set_first_seen)
  then have "distinct (map path (extractFiles (Some msg) cwd))"
    by (simp add: extractFiles_char comp_def distinct_first_seen)
  then show ?thesis by (simp add: extractFiles_char)
qed

theorem extractFiles_order_witness:
  "write_paths ''Edit b.c `a.ts` Edit b.c 'a.ts' `b.c`'' ''/p'' = [''/p/b.c'', ''/p/b.c''] \<and>
   read_paths ''Edit b.c `a.ts` Edit b.c 'a.ts' `b.c`'' ''/p'' = [''/p/a.ts'', ''/p/b.c'', ''/p/a.ts''] \<and>
   extractFiles (Some ''Edit b.c `a.ts` Edit b.c 'a.ts' `b.c`'') ''/p''
     = [\<lparr>path = ''/p/b.c'', isWrite = True\<rparr>, \<lparr>path = ''/p/a.ts'', isWrite = False\<rparr>]"
proof -
  have w: "write_paths ''Edit b.c `a.ts` Edit b.c 'a.ts' `b.c`'' ''/p'' = [''/p/b.c'', ''/p/b.c'']"
    by code_simp
  have r: "read_paths ''Edit b.c `a.ts` Edit b.c 'a.ts' `b.c`'' ''/p''
      = [''/p/a.ts'', ''/p/b.c'', ''/p/a.ts'']"
    by code_simp
  from extractFiles_order [of "''Edit b.c `a.ts` Edit b.c 'a.ts' `b.c`''" "''/p''"] w r
  show ?thesis by simp
qed

text \<open>
  C6. In a run that passes every gate (no installer flag, a notification of type
  \<open>agent-turn-complete\<close>, the rate limiter says due, the executable is available), when
  the extraction from the message is empty the run sends exactly one heartbeat, of entity
  type \<open>app\<close>, whose entity is the working directory and whose project is the base name
  of the working directory, and then records the time.
\<close>

theorem project_heartbeat_fallback:
  assumes "''--install'' \<notin> set args" and "''--uninstall'' \<notin> set args"
    and "parseNotification env args = Some n"
    and "n_type n = ''agent-turn-complete''"
    and "shouldSendHeartbeat env" and "ensureCliInstalled env"
    and "extractFiles (Some (case n_last_assistant_message n of None \<Rightarrow> [] | Some m \<Rightarrow> m))
           (n_cwd n) = []"
  shows "main env args =
     [SendHeartbeat \<lparr>entity = n_cwd n, entityType = App, category = Some ''ai coding'',
        projectFolder = None, project = Some (basename (n_cwd n)), lineChanges = None,
        heartbeatIsWrite = None\<rparr>,
      UpdateLastHeartbeat]"
  using assms by (simp add: main_def Let_def)

theorem project_heartbeat_fallback_witness:
  "main \<lparr>parseJson = (\<lambda>_. Some \<lparr>n_type = ''agent-turn-complete'', n_thread_id = ''t'',
             n_turn_id = ''1'', n_cwd = ''/home/u/proj'', n_input_messages = [],
             n_last_assistant_message = Some ''All done.''\<rparr>),
          shouldSendHeartbeat = True, ensureCliInstalled = True\<rparr> [''{}'']
   = [SendHeartbeat \<lparr>entity = ''/home/u/proj'', entityType = App, category = Some ''ai coding'',
        projectFolder = None, project = Some ''proj'', lineChanges = None,
        heartbeatIsWrite = None\<rparr>,
      UpdateLastHeartbeat]"
proof -
  let ?n = "\<lparr>n_type = ''agent-turn-complete'', n_thread_id = ''t'', n_turn_id = ''1'',
             n_cwd = ''/home/u/proj'', n_input_messages = [],
             n_last_assistant_message = Some ''All done.''\<rparr>"
  let ?env = "\<lparr>parseJson = (\<lambda>_. Some ?n), shouldSendHeartbeat = True, ensureCliInstalled = True\<rparr>"
  have e: "extractFiles (Some ''All done.'') ''/home/u/proj'' = []" by code_simp
  have b: "basename ''/home/u/proj'' = ''proj''" by code_simp
  have p: "parseNotification ?env [''{}''] = Some ?n" by (simp add: parseNotification_def)
  from project_heartbeat_fallback [of "[''{}'']" ?env ?n] p e b show ?thesis by simp
qed

text \<open>
  C7. In every run, the time of the heartbeat is recorded only at the end of a run that
  has sent at least one heartbeat before. A run that leaves early, because there is no
  notification, or its type is not \<open>agent-turn-complete\<close>, or the rate limiter says not
  due, or the executable is not available, sends no heartbeat and records nothing.
\<close>

theorem update_only_after_dispatch:
  "(UpdateLastHeartbeat \<in> set (main env args) \<longrightarrow>
      (\<exists>hbs. hbs \<noteq> [] \<and> main env args = map SendHeartbeat hbs @ [UpdateLastHeartbeat])) \<and>
   (parseNotification env args = None \<or>
    (\<exists>n. parseNotification env args = Some n \<and> n_type n \<noteq> ''agent-turn-complete'') \<or>
    \<not> shouldSendHeartbeat env \<or> \<not> ensureCliInstalled env \<longrightarrow>
      UpdateLastHeartbeat \<notin> set (main env args) \<and> \<not> list_ex is_dispatch (main env args))"
proof (rule conjI; rule impI)
  assume u: "UpdateLastHeartbeat \<in> set (main env args)"
  then have flags: "''--install'' \<notin> set args" "''--uninstall'' \<notin> set args"
    by (auto simp: main_def split: if_splits)
  with u obtain n where pn: "parseNotification env args = Some n"
    by (cases "parseNotification env args") (auto simp: main_def)
  with u flags have gates: "n_type n = ''agent-turn-complete''"
      "shouldSendHeartbeat env" "ensureCliInstalled env"
    by (auto simp: main_def split: if_splits)
  note n = flags pn gates
  let ?dir = "n_cwd n"
  let ?files = "extractFiles (Some (case n_last_assistant_message n of None \<Rightarrow> [] | Some m \<Rightarrow> m)) ?dir"
  show "\<exists>hbs. hbs \<noteq> [] \<and> main env args = map SendHeartbeat hbs @ [UpdateLastHeartbeat]"
  proof (cases "?files = []")
    case True
    let ?hb = "\<lparr>entity = ?dir, entityType = App, category = Some ''ai coding'',
        projectFolder = None, project = Some (basename ?dir), lineChanges = None,
        heartbeatIsWrite = None\<rparr>"
    from n True have "main env args = map SendHeartbeat [?hb] @ [UpdateLastHeartbeat]"
      by (simp add: main_def Let_def)
    then show ?thesis by blast
  next
    case False
    let ?hbs = "map (\<lambda>file. \<lparr>entity = path file, entityType = File, category = Some ''ai coding'',
        projectFolder = Some ?dir, project = None, lineChanges = None,
        heartbeatIsWrite = Some (isWrite file)\<rparr>) ?files"
    from n False have "main env args = map SendHeartbeat ?hbs @ [UpdateLastHeartbeat]"
      by (simp add: main_def Let_def comp_def)
    moreover from False have "?hbs \<noteq> []" by simp
    ultimately show ?thesis by blast
  qed
next
  assume "parseNotification env args = None \<or>
    (\<exists>n. parseNotification env args = Some n \<and> n_type n \<noteq> ''agent-turn-complete'') \<or>
    \<not> shouldSendHeartbeat env \<or> \<not> ensureCliInstalled env"
  then have "main env args = [] \<or> main env args = [InstallHook] \<or> main env args = [UninstallHook]"
    by (auto simp: main_def split: option.splits)
  then show "UpdateLastHeartbeat \<notin> set (main env args) \<and> \<not> list_ex is_dispatch (main env args)"
    by auto
qed

theorem update_only_after_dispatch_witness:
  "UpdateLastHeartbeat \<in> set (main \<lparr>parseJson = (\<lambda>_. Some \<lparr>n_type = ''agent-turn-complete'',
       n_thread_id = ''t'', n_turn_id = ''1'', n_cwd = ''/p'', n_input_messages = [],
       n_last_assistant_message = Some ''Edited a.ts''\<rparr>),
     shouldSendHeartbeat = True, ensureCliInstalled = True\<rparr> [''{}'']) \<and>
   (\<exists>hbs. hbs \<noteq> [] \<and>
      main \<lparr>parseJson = (\<lambda>_. Some \<lparr>n_type = ''agent-turn-complete'',
       n_thread_id = ''t'', n_turn_id = ''1'', n_cwd = ''/p'', n_input_messages = [],
       n_last_assistant_message = Some ''Edited a.ts''\<rparr>),
     shouldSendHeartbeat = True, ensureCliInstalled = True\<rparr> [''{}'']
      = map SendHeartbeat hbs @ [UpdateLastHeartbeat]) \<and>
   \<not> shouldSendHeartbeat \<lparr>parseJson = (\<lambda>_. Some \<lparr>n_type = ''agent-turn-complete'',
       n_thread_id = ''t'', n_turn_id = ''1'', n_cwd = ''/p'', n_input_messages = [],
       n_last_assistant_message = Some ''Edited a.ts''\<rparr>),
     shouldSendHeartbeat = False, ensureCliInstalled = True\<rparr> \<and>
   UpdateLastHeartbeat \<notin> set (main \<lparr>parseJson = (\<lambda>_. Some \<lparr>n_type = ''agent-turn-complete'',
       n_thread_id = ''t'', n_turn_id = ''1'', n_cwd = ''/p'', n_input_messages = [],
       n_last_assistant_message = Some ''Edited a.ts''\<rparr>),
     shouldSendHeartbeat = False, ensureCliInstalled = True\<rparr> [''{}'']) \<and>
   \<not> list_ex is_dispatch (main \<lparr>parseJson = (\<lambda>_. Some \<lparr>n_type = ''agent-turn-complete'',
       n_thread_id = ''t'', n_turn_id = ''1'', n_cwd = ''/p'', n_input_messages = [],
       n_last_assistant_message = Some ''Edited a.ts''\<rparr>),
     shouldSendHeartbeat = False, ensureCliInstalled = True\<rparr> [''{}''])"
proof -
  let ?n = "\<lparr>n_type = ''agent-turn-complete'', n_thread_id = ''t'', n_turn_id = ''1'',
             n_cwd = ''/p'', n_input_messages = [],
             n_last_assistant_message = Some ''Edited a.ts''\<rparr>"
  let ?due = "\<lparr>parseJson = (\<lambda>_. Some ?n), shouldSendHeartbeat = True, ensureCliInstalled = True\<rparr>"
  let ?notdue = "\<lparr>parseJson = (\<lambda>_. Some ?n), shouldSendHeartbeat = False, ensureCliInstalled = True\<rparr>"
  have e: "extractFiles (Some ''Edited a.ts'') ''/p'' = [\<lparr>path = ''/p/a.ts'', isWrite = True\<rparr>]"
    by code_simp
  have u: "UpdateLastHeartbeat \<in> set (main ?due [''{}''])"
    by (simp add: main_def parseNotification_def e)
  have nd: "\<not> shouldSendHeartbeat ?notdue" by simp
  from update_only_after_dispatch [of ?due "[''{}'']"] u
       update_only_after_dispatch [of ?notdue "[''{}'']"] nd
  show ?thesis by blast
qed

text \<open>
  C8. For every working directory, \<open>extractFiles\<close> and \<open>extractFilePaths\<close> return the
  empty sequence for an absent message and for the empty message; no function that
  could fail is reached.
\<close>

theorem empty_message_empty_result:
  "extractFiles None cwd = [] \<and> extractFiles (Some []) cwd = [] \<and>
   extractFilePaths None cwd = [] \<and> extractFilePaths (Some []) cwd = []"
  by (simp add: extractFiles_def extractFilePaths_def)

text \<open>
  C9, as amended. Every capture of the single-backtick pattern ends in a dot and one to
  six word characters (ASCII letters, digits or the underscore) and has at least one
  character before the dot; when the validator accepts the capture, these word characters
  are its extension. So no path whose extension has a character outside the word
  characters is accepted from this pattern.
\<close>

theorem backtick_extension:
  assumes "Some c \<in> set (matchAll BACKTICK msg)"
  shows "\<exists>x w. c = x @ CHR ''.'' # w \<and> x \<noteq> [] \<and> 1 \<le> length w \<and> length w \<le> 6 \<and>
           list_all isWordChar w \<and> (isValidFilePath c \<longrightarrow> extname c = CHR ''.'' # w)"
proof -
  from backtick_capture [OF assms] obtain x w where
    c: "c = x @ CHR ''.'' # w" "x \<noteq> []" "1 \<le> length w" "length w \<le> 6" "list_all isWordChar w"
    by blast
  from c(3) have "w \<noteq> []" by auto
  with word_not_sep [OF c(5)] extname_suffix [of w x]
  have "extname c = [] \<or> extname c = CHR ''.'' # w" using c(1) by simp
  with valid_extname_nonempty [of c]
  have "isValidFilePath c \<longrightarrow> extname c = CHR ''.'' # w" by auto
  with c show ?thesis by blast
qed

theorem backtick_extension_witness:
  "Some ''song.mp3'' \<in> set (matchAll BACKTICK ''`song.mp3`'') \<and>
   (\<exists>x w. ''song.mp3'' = x @ CHR ''.'' # w \<and> x \<noteq> [] \<and> 1 \<le> length w \<and> length w \<le> 6 \<and>
           list_all isWordChar w \<and>
           (isValidFilePath ''song.mp3'' \<longrightarrow> extname ''song.mp3'' = CHR ''.'' # w))"
proof -
  have h: "Some ''song.mp3'' \<in> set (matchAll BACKTICK ''`song.mp3`'')" by code_simp
  from backtick_extension [OF h] h show ?thesis by blast
qed

text \<open>
  C9, as stated, fails: the path \<open>song.mp3\<close> in single backticks is accepted, and its
  extension \<open>mp3\<close> has a digit.
\<close>

theorem backtick_alphabetic_counterexample:
  "matchAll BACKTICK ''`song.mp3`'' = [Some ''song.mp3''] \<and>
   isValidFilePath ''song.mp3'' \<and>
   extractFiles (Some ''`song.mp3`'') ''/p'' = [\<lparr>path = ''/p/song.mp3'', isWrite = False\<rparr>] \<and>
   extname ''song.mp3'' = ''.mp3'' \<and>
   \<not> list_all isAlphaChar ''mp3''"
  by code_simp




end
